theory Spec2Isabelle
  imports Main "HOL-Library.Sublist"
begin

section \<open>The platform's lexical path functions\<close>

text \<open>
  The server calls \<^verbatim>\<open>path.join\<close>, \<^verbatim>\<open>path.resolve\<close> and \<^verbatim>\<open>path.relative\<close> of the Node.js
  runtime. They are not part of the repository; they are modelled here in their POSIX
  flavour (the deployment target writes to \<^verbatim>\<open>/tmp/\<close> and tests for a leading \<^verbatim>\<open>/\<close>), at the
  level of path segments: a path is cut at every \<^verbatim>\<open>/\<close>, empty segments and \<^verbatim>\<open>.\<close> are dropped,
  \<^verbatim>\<open>..\<close> removes the segment before it, and the pieces are glued with single separators.
  A JavaScript string is a \<open>string\<close>; only the characters \<^verbatim>\<open>/\<close>, \<^verbatim>\<open>.\<close> and the backslash are
  ever inspected.
\<close>

definition startsWith :: "string \<Rightarrow> string \<Rightarrow> bool" where
  \<comment> \<open>\<^verbatim>\<open>s.startsWith(p)\<close>\<close>
  "startsWith s p = prefix p s"

definition substring1 :: "string \<Rightarrow> string" where
  \<comment> \<open>\<^verbatim>\<open>s.substring(1)\<close>\<close>
  "substring1 s = drop 1 s"

fun splitOn :: "char \<Rightarrow> string \<Rightarrow> string list" where
  \<comment> \<open>\<^verbatim>\<open>s.split(d)\<close>: the pieces between the separators, never an empty list\<close>
  "splitOn d [] = [[]]"
| "splitOn d (c # cs) =
     (if c = d then [] # splitOn d cs
      else (case splitOn d cs of
              piece # pieces \<Rightarrow> (c # piece) # pieces
            | [] \<Rightarrow> [[c]]))"

fun joinSegs :: "string list \<Rightarrow> string" where
  \<comment> \<open>\<^verbatim>\<open>segs.join('/')\<close>\<close>
  "joinSegs [] = []"
| "joinSegs [s] = s"
| "joinSegs (s # t # ss) = s @ CHR ''/'' # joinSegs (t # ss)"

fun normalizeSegs :: "bool \<Rightarrow> string list \<Rightarrow> string list \<Rightarrow> string list" where
  \<comment> \<open>the segment walk of Node's \<^verbatim>\<open>normalizeString\<close>: \<open>res\<close> is the result so far, newest
      segment first; \<open>allowAboveRoot\<close> keeps a \<^verbatim>\<open>..\<close> that has nothing left to remove\<close>
  "normalizeSegs allowAboveRoot res [] = rev res"
| "normalizeSegs allowAboveRoot res (s # ss) =
     (if s = [] \<or> s = ''.'' then normalizeSegs allowAboveRoot res ss
      else if s = ''..'' then
        (if res \<noteq> [] \<and> hd res \<noteq> ''..'' then normalizeSegs allowAboveRoot (tl res) ss
         else if allowAboveRoot then normalizeSegs allowAboveRoot (''..'' # res) ss
         else normalizeSegs allowAboveRoot res ss)
      else normalizeSegs allowAboveRoot (s # res) ss)"

definition normalizeString :: "string \<Rightarrow> bool \<Rightarrow> string" where
  "normalizeString path allowAboveRoot =
     joinSegs (normalizeSegs allowAboveRoot [] (splitOn CHR ''/'' path))"

definition isAbsolute :: "string \<Rightarrow> bool" where
  "isAbsolute path = (path \<noteq> [] \<and> hd path = CHR ''/'')"

definition path_normalize :: "string \<Rightarrow> string" where
  \<comment> \<open>\<^verbatim>\<open>path.normalize\<close>: a trailing separator is kept\<close>
  "path_normalize path =
     (if path = [] then ''.''
      else
        let trailingSeparator = (last path = CHR ''/'');
            p = normalizeString path (\<not> isAbsolute path)
        in if p = [] then
             (if isAbsolute path then ''/'' else if trailingSeparator then ''./'' else ''.'')
           else
             (let p' = (if trailingSeparator then p @ ''/'' else p)
              in if isAbsolute path then CHR ''/'' # p' else p'))"

definition path_join :: "string list \<Rightarrow> string" where
  \<comment> \<open>\<^verbatim>\<open>path.join(...args)\<close>: the non-empty arguments, glued with \<^verbatim>\<open>/\<close>, then normalized\<close>
  "path_join args =
     (let joined = joinSegs (filter (\<lambda>arg. arg \<noteq> []) args)
      in if joined = [] then ''.'' else path_normalize joined)"

definition resolveSegs :: "string \<Rightarrow> string \<Rightarrow> string list" where
  \<comment> \<open>the segments of \<^verbatim>\<open>path.resolve(p)\<close>; a relative \<open>p\<close> is taken from the working
      directory \<open>cwd\<close> of the process, which is an absolute path\<close>
  "resolveSegs cwd p =
     normalizeSegs False []
       (splitOn CHR ''/'' (if isAbsolute p then p else cwd @ ''/'' @ p))"

definition path_resolve :: "string \<Rightarrow> string \<Rightarrow> string" where
  \<comment> \<open>\<^verbatim>\<open>path.resolve(p)\<close>: absolute, normalized, no trailing separator\<close>
  "path_resolve cwd p = CHR ''/'' # joinSegs (resolveSegs cwd p)"

fun commonPrefixLength :: "string list \<Rightarrow> string list \<Rightarrow> nat" where
  "commonPrefixLength (x # xs) (y # ys) =
     (if x = y then Suc (commonPrefixLength xs ys) else 0)"
| "commonPrefixLength _ _ = 0"

definition path_relative :: "string \<Rightarrow> string \<Rightarrow> string \<Rightarrow> string" where
  \<comment> \<open>\<^verbatim>\<open>path.relative(from, to)\<close>: both are resolved; one \<^verbatim>\<open>..\<close> for every segment of
      \<open>from\<close> below the common ancestor, then the rest of \<open>to\<close>\<close>
  "path_relative cwd from to =
     (if from = to then []
      else
        let fromSegs = resolveSegs cwd from;
            toSegs = resolveSegs cwd to
        in if fromSegs = toSegs then []
           else
             let n = commonPrefixLength fromSegs toSegs
             in joinSegs (replicate (length fromSegs - n) ''..'' @ drop n toSegs))"

section \<open>The path resolver of the server\<close>

text \<open>
  \<^verbatim>\<open>DOCUMENT_ROOT\<close> is a constant of the process, \<^verbatim>\<open>path.resolve(__dirname)\<close>; it is a
  parameter of every function below.
\<close>

definition getSafePath :: "string \<Rightarrow> string \<Rightarrow> string" where
  \<comment> \<open>\<^verbatim>\<open>src/api/server.js\<close>, lines 45 to 52 (and the two later copies of the file)\<close>
  "getSafePath DOCUMENT_ROOT userPath =
     (let targetPath = (if startsWith userPath ''/'' then substring1 userPath else userPath);
          fullPath = path_join [DOCUMENT_ROOT, targetPath]
      in if \<not> startsWith fullPath DOCUMENT_ROOT then DOCUMENT_ROOT else fullPath)"

definition getSafePath0 :: "string \<Rightarrow> string \<Rightarrow> string" where
  \<comment> \<open>the first version of the file, lines 34 to 42: the same test, branches swapped\<close>
  "getSafePath0 DOCUMENT_ROOT userPath =
     (let fullPath = path_join [DOCUMENT_ROOT,
            if startsWith userPath ''/'' then substring1 userPath else userPath]
      in if startsWith fullPath DOCUMENT_ROOT then fullPath else DOCUMENT_ROOT)"

definition replaceBackslashes :: "string \<Rightarrow> string" where
  \<comment> \<open>\<^verbatim>\<open>s.replace(/\\/g, '/')\<close>\<close>
  "replaceBackslashes s = map (\<lambda>c. if c = CHR 0x5C then CHR ''/'' else c) s"

definition getRelativePath :: "string \<Rightarrow> string \<Rightarrow> string \<Rightarrow> string" where
  "getRelativePath cwd DOCUMENT_ROOT absolutePath =
     CHR ''/'' # replaceBackslashes (path_relative cwd DOCUMENT_ROOT absolutePath)"

definition relativeDir :: "string \<Rightarrow> string \<Rightarrow> string \<Rightarrow> string" where
  \<comment> \<open>the field \<^verbatim>\<open>relativeDir\<close> of a listing: \<^verbatim>\<open>getRelativePath(getSafePath(userDir))\<close>\<close>
  "relativeDir cwd DOCUMENT_ROOT userDir =
     getRelativePath cwd DOCUMENT_ROOT (getSafePath DOCUMENT_ROOT userDir)"

definition is_resolved :: "string \<Rightarrow> bool" where
  \<comment> \<open>\<open>root\<close> is a value that \<^verbatim>\<open>path.resolve\<close> returns: absolute and unchanged by resolving\<close>
  "is_resolved root = (isAbsolute root \<and> path_resolve ''/'' root = root)"

definition cleanSeg :: "string \<Rightarrow> bool" where
  \<comment> \<open>a segment of a normalized absolute path\<close>
  "cleanSeg s = (s \<noteq> [] \<and> s \<noteq> ''.'' \<and> s \<noteq> ''..'' \<and> CHR ''/'' \<notin> set s)"

definition plainSeg :: "string \<Rightarrow> bool" where
  "plainSeg s = (s \<noteq> [] \<and> CHR ''/'' \<notin> set s)"

section \<open>Request values\<close>

text \<open>
  A field of \<^verbatim>\<open>req.body\<close> or \<^verbatim>\<open>req.query\<close> is any JSON value or absent. Numbers are kept
  as integers (every other number is truthy and not a string, like a non-zero integer);
  arrays and objects are opaque. A string stands for the UTF-8 bytes of a well-formed
  JavaScript string: what is written as text is read back as the same text.
\<close>

datatype jsval = JUndefined | JNull | JBool bool | JNum int | JStr string | JArray | JObject

fun truthy :: "jsval \<Rightarrow> bool" where
  "truthy JUndefined = False"
| "truthy JNull = False"
| "truthy (JBool b) = b"
| "truthy (JNum n) = (n \<noteq> 0)"
| "truthy (JStr s) = (s \<noteq> [])"
| "truthy JArray = True"
| "truthy JObject = True"

definition or_default :: "jsval \<Rightarrow> string \<Rightarrow> jsval" where
  \<comment> \<open>\<^verbatim>\<open>v || 'd'\<close>\<close>
  "or_default v d = (if truthy v then v else JStr d)"

fun the_string :: "jsval \<Rightarrow> string option" where
  \<comment> \<open>\<open>None\<close> for a value on which \<^verbatim>\<open>startsWith\<close> or the argument check of
      \<^verbatim>\<open>path.join\<close> throws a TypeError\<close>
  "the_string (JStr s) = Some s"
| "the_string _ = None"

section \<open>The file store\<close>

text \<open>
  The storage backend is the file system behind \<^verbatim>\<open>fs/promises\<close>. It is modelled as a map
  from the segments of an absolute path to what is there: a regular file with its text, a
  directory, or a device that discards what is written to it and reads as empty (the
  null device); the root directory always exists. A path is walked from the root, one
  name after the other, so that a name below a file is answered with \<open>ENOTDIR\<close>; a path
  with a NUL character is refused by the runtime, and a name of more than 255 bytes or a
  path of 4096 bytes or more by the system. The handlers pass only normalized paths.
  Permissions, links and mount points below the root are not modelled: the server may
  read, write and remove every entry.
\<close>

datatype node = File string | Dir | Device

type_synonym filesystem = "string list \<rightharpoonup> node"

datatype fs_error =
  ENOENT | ENOTDIR | EISDIR | EBUSY | ENAMETOOLONG | ERR_INVALID_ARG_VALUE | ERR_INVALID_ARG_TYPE

datatype fs_call = Stat string | ReadFile string | WriteFile string jsval | Unlink string | Rm string

definition trailingSlash :: "string \<Rightarrow> bool" where
  "trailingSlash p = (p \<noteq> [] \<and> last p = CHR ''/'')"

definition invalid_path :: "string \<Rightarrow> fs_error option" where
  \<comment> \<open>what every call checks of the path string before it looks at the store\<close>
  "invalid_path p =
     (if CHR 0x00 \<in> set p then Some ERR_INVALID_ARG_VALUE
      else if 4096 \<le> length p then Some ENAMETOOLONG
      else None)"

fun walk :: "filesystem \<Rightarrow> string list \<Rightarrow> node \<Rightarrow> string list \<Rightarrow> fs_error + node" where
  \<comment> \<open>from the entry \<open>n\<close> at \<open>here\<close> down the names that remain\<close>
  "walk fs here n [] = Inr n"
| "walk fs here n (name # names) =
     (if n \<noteq> Dir then Inl ENOTDIR
      else if 255 < length name then Inl ENAMETOOLONG
      else
        (case fs (here @ [name]) of
           None \<Rightarrow> Inl ENOENT
         | Some n' \<Rightarrow> walk fs (here @ [name]) n' names))"

definition namei :: "filesystem \<Rightarrow> string list \<Rightarrow> fs_error + node" where
  "namei fs k = walk fs [] Dir k"

definition fs_stat :: "string \<Rightarrow> filesystem \<Rightarrow> string \<Rightarrow> fs_error + node" where
  "fs_stat cwd fs p =
     (case invalid_path p of
        Some e \<Rightarrow> Inl e
      | None \<Rightarrow>
          (case namei fs (resolveSegs cwd p) of
             Inl e \<Rightarrow> Inl e
           | Inr Dir \<Rightarrow> Inr Dir
           | Inr n \<Rightarrow> if trailingSlash p then Inl ENOTDIR else Inr n))"

definition fs_readFile :: "string \<Rightarrow> filesystem \<Rightarrow> string \<Rightarrow> fs_error + string" where
  "fs_readFile cwd fs p =
     (case fs_stat cwd fs p of
        Inl e \<Rightarrow> Inl e
      | Inr Dir \<Rightarrow> Inl EISDIR
      | Inr Device \<Rightarrow> Inr []
      | Inr (File c) \<Rightarrow> Inr c)"

definition open_for_write :: "string \<Rightarrow> filesystem \<Rightarrow> string \<Rightarrow> fs_error + filesystem" where
  \<comment> \<open>opening with the flag \<^verbatim>\<open>w\<close>: the directory of the file must exist; the file is created
      or emptied; a directory, and any path with a trailing separator, is refused\<close>
  "open_for_write cwd fs p =
     (case invalid_path p of
        Some e \<Rightarrow> Inl e
      | None \<Rightarrow>
          let k = resolveSegs cwd p in
          if k = [] then Inl EISDIR
          else
            (case namei fs (butlast k) of
               Inl e \<Rightarrow> Inl e
             | Inr Dir \<Rightarrow>
                 if trailingSlash p then Inl EISDIR
                 else if 255 < length (last k) then Inl ENAMETOOLONG
                 else
                   (case fs k of
                      Some Dir \<Rightarrow> Inl EISDIR
                    | Some Device \<Rightarrow> Inr fs
                    | Some (File c) \<Rightarrow> Inr (fs(k \<mapsto> File []))
                    | None \<Rightarrow> Inr (fs(k \<mapsto> File [])))
             | Inr n \<Rightarrow> Inl ENOTDIR))"

datatype write_result = Written filesystem | Write_error fs_error | Write_not_modelled

definition fs_writeFile :: "string \<Rightarrow> filesystem \<Rightarrow> string \<Rightarrow> jsval \<Rightarrow> write_result" where
  \<comment> \<open>\<^verbatim>\<open>fs.writeFile(p, data)\<close>. Data that is neither a string nor iterable is refused before
      the file is opened. An array is iterable and is written element by element after the
      file is opened: what that leaves depends on its elements, which the model does not
      hold.\<close>
  "fs_writeFile cwd fs p data =
     (case data of
        JStr text \<Rightarrow>
          (case open_for_write cwd fs p of
             Inl e \<Rightarrow> Write_error e
           | Inr fs' \<Rightarrow>
               Written (if fs' (resolveSegs cwd p) = Some Device then fs'
                        else fs'((resolveSegs cwd p) \<mapsto> File text)))
      | JArray \<Rightarrow>
          (case open_for_write cwd fs p of
             Inl e \<Rightarrow> Write_error e
           | Inr fs' \<Rightarrow> Write_not_modelled)
      | other \<Rightarrow> Write_error ERR_INVALID_ARG_TYPE)"



section \<open>Responses\<close>

datatype body =
    Ok_message string
  | Ok_content string
  | Fail string
  | Fail_error string fs_error

datatype response = Json nat body

text \<open>
  A TypeError raised outside the \<^verbatim>\<open>try\<close> block of an \<^verbatim>\<open>async\<close> handler (a request value that
  is not a string reaches \<^verbatim>\<open>startsWith\<close> or \<^verbatim>\<open>path.join\<close>) rejects the handler's promise and
  nothing answers the request: \<open>Unhandled_TypeError\<close>. Every handler returns, next to its
  response, the store it leaves and the calls it made. An array as content is written
  element by element once the file is open; the response and the store then depend on the
  elements, which the model does not hold: the outcome is \<open>Not_modelled\<close>, and the store
  field of that reply says nothing.
\<close>

datatype outcome = Responded response | Unhandled_TypeError | Not_modelled

record reply =
  outcome :: outcome
  store :: filesystem
  calls :: "fs_call list"

fun status :: "outcome \<Rightarrow> nat option" where
  "status (Responded (Json st b)) = Some st"
| "status Unhandled_TypeError = None"
| "status Not_modelled = None"


section \<open>The handlers of the first version (everything under \<^verbatim>\<open>DOCUMENT_ROOT\<close>)\<close>


definition api_save_file0 ::
  "string \<Rightarrow> string \<Rightarrow> filesystem \<Rightarrow> jsval \<Rightarrow> jsval \<Rightarrow> jsval \<Rightarrow> reply" where
  "api_save_file0 cwd DOCUMENT_ROOT fs file_name content directory =
     (if \<not> truthy file_name \<or> content = JUndefined then
        \<lparr>outcome = Responded (Json 400 (Fail ''Nama file dan konten diperlukan.'')),
         store = fs, calls = []\<rparr>
      else
        (case the_string (or_default directory ''./'') of
           None \<Rightarrow> \<lparr>outcome = Unhandled_TypeError, store = fs, calls = []\<rparr>
         | Some d \<Rightarrow>
             (case the_string file_name of
                None \<Rightarrow> \<lparr>outcome = Unhandled_TypeError, store = fs, calls = []\<rparr>
              | Some f \<Rightarrow>
                  let filePath = path_join [getSafePath0 DOCUMENT_ROOT d, f] in
                  (case fs_writeFile cwd fs filePath content of
                     Written fs' \<Rightarrow>
                       \<lparr>outcome = Responded (Json 200 (Ok_message ''File berhasil disimpan.'')),
                        store = fs', calls = [WriteFile filePath content]\<rparr>
                   | Write_error error \<Rightarrow>
                       \<lparr>outcome = Responded (Json 500
                          (Fail_error ''Gagal menyimpan file (Izin ditolak?).'' error)),
                        store = fs, calls = [WriteFile filePath content]\<rparr>
                   | Write_not_modelled \<Rightarrow>
                       \<lparr>outcome = Not_modelled, store = fs,
                        calls = [WriteFile filePath content]\<rparr>))))"



section \<open>The handlers of \<^verbatim>\<open>src/api/server.js\<close> (reads under \<^verbatim>\<open>DOCUMENT_ROOT\<close>, writes under \<^verbatim>\<open>/tmp/\<close>)\<close>

definition api_file_content ::
  "string \<Rightarrow> string \<Rightarrow> filesystem \<Rightarrow> jsval \<Rightarrow> jsval \<Rightarrow> reply" where
  "api_file_content cwd DOCUMENT_ROOT fs directory file =
     (let userDir = or_default directory ''./'' in
      if \<not> truthy file then
        \<lparr>outcome = Responded (Json 400 (Fail ''Nama file diperlukan.'')), store = fs, calls = []\<rparr>
      else
        (case the_string userDir of
           None \<Rightarrow> \<lparr>outcome = Unhandled_TypeError, store = fs, calls = []\<rparr>
         | Some d \<Rightarrow>
             (case the_string file of
                None \<Rightarrow> \<lparr>outcome = Unhandled_TypeError, store = fs, calls = []\<rparr>
              | Some fileName \<Rightarrow>
                  let filePath = path_join [getSafePath DOCUMENT_ROOT d, fileName] in
                  (case fs_readFile cwd fs filePath of
                     Inr content \<Rightarrow>
                       \<lparr>outcome = Responded (Json 200 (Ok_content content)),
                        store = fs, calls = [ReadFile filePath]\<rparr>
                   | Inl error \<Rightarrow>
                       \<lparr>outcome = Responded (Json 500
                          (Fail_error ''[SERVER ERROR] Gagal membaca file. Cek log Vercel.'' error)),
                        store = fs, calls = [ReadFile filePath]\<rparr>))))"

definition api_save_file ::
  "string \<Rightarrow> filesystem \<Rightarrow> jsval \<Rightarrow> jsval \<Rightarrow> reply" where
  "api_save_file cwd fs file_name content =
     (if \<not> truthy file_name \<or> content = JUndefined then
        \<lparr>outcome = Responded (Json 400 (Fail ''Nama file dan konten diperlukan.'')),
         store = fs, calls = []\<rparr>
      else
        (case the_string file_name of
           None \<Rightarrow> \<lparr>outcome = Unhandled_TypeError, store = fs, calls = []\<rparr>
         | Some f \<Rightarrow>
             let filePath = path_join [''/tmp/'', f] in
             (case fs_writeFile cwd fs filePath content of
                Written fs' \<Rightarrow>
                  \<lparr>outcome = Responded (Json 200
                     (Ok_message ''File berhasil disimpan (sementara di /tmp).'')),
                   store = fs', calls = [WriteFile filePath content]\<rparr>
              | Write_error error \<Rightarrow>
                  \<lparr>outcome = Responded (Json 500
                     (Fail_error
                        ''[SERVER ERROR] Gagal menyimpan file (Izin ditolak?). Cek log Vercel.''
                        error)),
                   store = fs, calls = [WriteFile filePath content]\<rparr>
              | Write_not_modelled \<Rightarrow>
                  \<lparr>outcome = Not_modelled, store = fs,
                   calls = [WriteFile filePath content]\<rparr>)))"


definition fs_example :: filesystem where
  \<comment> \<open>a small store: under \<^verbatim>\<open>/tmp\<close> the file \<^verbatim>\<open>notes.txt\<close> and the directory \<^verbatim>\<open>work\<close> with a
      file; under \<^verbatim>\<open>/srv/data\<close> the file \<^verbatim>\<open>old.txt\<close> and the directory \<^verbatim>\<open>docs\<close> with a file;
      the null device \<^verbatim>\<open>/dev/null\<close>\<close>
  "fs_example =
     [[''tmp''] \<mapsto> Dir,
      [''tmp'', ''notes.txt''] \<mapsto> File ''n'',
      [''tmp'', ''work''] \<mapsto> Dir,
      [''tmp'', ''work'', ''a.txt''] \<mapsto> File ''a'',
      [''srv''] \<mapsto> Dir,
      [''srv'', ''data''] \<mapsto> Dir,
      [''srv'', ''data'', ''old.txt''] \<mapsto> File ''old'',
      [''srv'', ''data'', ''docs''] \<mapsto> Dir,
      [''srv'', ''data'', ''docs'', ''r.txt''] \<mapsto> File ''r'',
      [''dev''] \<mapsto> Dir,
      [''dev'', ''null''] \<mapsto> Device]"

section \<open>Download\<close>

text \<open>
  \<^verbatim>\<open>res.download\<close> belongs to the web framework. What it reports to the callback is an input
  of the model: the transfer completes, or it fails, either before the response headers
  have gone out (a missing file) or after them (the connection breaks while the bytes are
  streaming). The callback's own write is the part of the repository.
\<close>

datatype stream_end = Stream_done | Stream_error bool

datatype send_effect = No_write | Send nat string

datatype download_result =
    Bad_request string
  | Thrown_TypeError
  | Downloaded string string stream_end send_effect
  \<comment> \<open>status 400 with a text; a TypeError thrown by the handler itself; or the call
      \<^verbatim>\<open>res.download(filePath, fileName, callback)\<close> with how the transfer ended and what the
      callback then wrote\<close>

fun err_of :: "stream_end \<Rightarrow> bool" where
  "err_of Stream_done = False"
| "err_of (Stream_error headersSent) = True"

fun headersSent_of :: "stream_end \<Rightarrow> bool" where
  "headersSent_of Stream_done = True"
| "headersSent_of (Stream_error headersSent) = headersSent"

definition download_callback0 :: "bool \<Rightarrow> bool \<Rightarrow> send_effect" where
  \<comment> \<open>first version, lines 179 to 184: \<^verbatim>\<open>if (err) { res.status(500).send(...) }\<close>\<close>
  "download_callback0 err headersSent =
     (if err then Send 500 ''Gagal mengunduh file.'' else No_write)"

definition download_callback :: "bool \<Rightarrow> bool \<Rightarrow> send_effect" where
  \<comment> \<open>\<^verbatim>\<open>src/api/server.js\<close>, lines 218 to 227: the write is guarded by \<^verbatim>\<open>!res.headersSent\<close>\<close>
  "download_callback err headersSent =
     (if err then
        (if \<not> headersSent then Send 500 ''Gagal mengunduh file. Cek log Vercel.'' else No_write)
      else No_write)"

definition api_download0 :: "string \<Rightarrow> jsval \<Rightarrow> jsval \<Rightarrow> stream_end \<Rightarrow> download_result" where
  "api_download0 DOCUMENT_ROOT directory file stream =
     (let userDir = or_default directory ''./'' in
      if \<not> truthy file then Bad_request ''Nama file diperlukan.''
      else
        (case the_string userDir of
           None \<Rightarrow> Thrown_TypeError
         | Some d \<Rightarrow>
             (case the_string file of
                None \<Rightarrow> Thrown_TypeError
              | Some fileName \<Rightarrow>
                  let filePath = path_join [getSafePath0 DOCUMENT_ROOT d, fileName] in
                  Downloaded filePath fileName stream
                    (download_callback0 (err_of stream) (headersSent_of stream)))))"

definition api_download :: "jsval \<Rightarrow> stream_end \<Rightarrow> download_result" where
  "api_download file stream =
     (if \<not> truthy file then Bad_request ''Nama file diperlukan.''
      else
        (case the_string file of
           None \<Rightarrow> Thrown_TypeError
         | Some fileName \<Rightarrow>
             let filePath = path_join [''/tmp/'', fileName] in
             Downloaded filePath fileName stream
               (download_callback (err_of stream) (headersSent_of stream))))"

section \<open>The remote-repository variant\<close>























section \<open>Lemmas about the path functions\<close>

lemma getSafePath0_eq: "getSafePath0 root p = getSafePath root p"
  by (simp add: getSafePath0_def getSafePath_def Let_def)

lemma getSafePath_startsWith: "startsWith (getSafePath root p) root"
  by (simp add: getSafePath_def Let_def startsWith_def)

lemma splitOn_nonempty [simp]: "splitOn d s \<noteq> []"
  by (induction s) (auto split: list.splits)

lemma splitOn_Cons [simp]:
  "splitOn d (c # cs) =
     (if c = d then [] # splitOn d cs else (c # hd (splitOn d cs)) # tl (splitOn d cs))"
  by (cases "splitOn d cs") auto

declare splitOn.simps(2) [simp del]

lemma splitOn_append: "splitOn d (a @ d # b) = splitOn d a @ splitOn d b"
  by (induction a) (auto simp: hd_append)

lemma splitOn_no_sep: "seg \<in> set (splitOn d s) \<Longrightarrow> d \<notin> set seg"
proof (induction s arbitrary: seg)
  case Nil then show ?case by simp
next
  case (Cons c cs)
  show ?case
  proof (cases "c = d")
    case True with Cons show ?thesis by auto
  next
    case False
    obtain h t where ht: "splitOn d cs = h # t" by (cases "splitOn d cs") auto
    with Cons False show ?thesis by auto
  qed
qed

lemma splitOn_single: "d \<notin> set s \<Longrightarrow> splitOn d s = [s]"
  by (induction s) auto

lemma splitOn_joinSegs:
  "segs \<noteq> [] \<Longrightarrow> \<forall>s \<in> set segs. CHR ''/'' \<notin> set s \<Longrightarrow> splitOn CHR ''/'' (joinSegs segs) = segs"
proof (induction segs rule: joinSegs.induct)
  case 1 then show ?case by simp
next
  case (2 s)
  then show ?case by (simp add: splitOn_single)
next
  case (3 s t ss)
  have "splitOn CHR ''/'' (s @ CHR ''/'' # joinSegs (t # ss)) = splitOn CHR ''/'' s @ splitOn CHR ''/'' (joinSegs (t # ss))"
    by (rule splitOn_append)
  then show ?case using 3 by (simp add: splitOn_single)
qed

lemma normalizeSegs_append:
  "normalizeSegs a res (xs @ ys) = normalizeSegs a (rev (normalizeSegs a res xs)) ys"
  by (induction a res xs rule: normalizeSegs.induct) auto

lemma normalizeSegs_clean:
  "list_all cleanSeg xs \<Longrightarrow> normalizeSegs a res xs = rev res @ xs"
  by (induction xs arbitrary: res) (auto simp: cleanSeg_def)

lemma normalizeSegs_no_dotdot:
  "''..'' \<notin> set xs \<Longrightarrow>
   normalizeSegs a res xs = rev res @ filter (\<lambda>s. s \<noteq> [] \<and> s \<noteq> ''.'') xs"
  by (induction xs arbitrary: res) auto

lemma normalizeSegs_False_clean:
  "list_all cleanSeg res \<Longrightarrow> \<forall>s \<in> set xs. CHR ''/'' \<notin> set s \<Longrightarrow>
   list_all cleanSeg (normalizeSegs False res xs)"
proof (induction xs arbitrary: res)
  case Nil then show ?case by simp
next
  case (Cons s ss)
  have ss: "\<forall>s \<in> set ss. CHR ''/'' \<notin> set s" using Cons.prems(2) by simp
  have tl: "list_all cleanSeg (tl res)" using Cons.prems(1) by (cases res) auto
  consider (skip) "s = [] \<or> s = ''.''" | (up) "s = ''..''" | (seg) "cleanSeg s"
    using Cons.prems(2) by (auto simp: cleanSeg_def)
  then show ?case
  proof cases
    case skip
    then show ?thesis using Cons.IH[OF Cons.prems(1) ss] by auto
  next
    case up
    then show ?thesis using Cons.IH[OF Cons.prems(1) ss] Cons.IH[OF tl ss] by auto
  next
    case seg
    then have "list_all cleanSeg (s # res)" using Cons.prems(1) by simp
    from Cons.IH[OF this ss] seg show ?thesis by (auto simp: cleanSeg_def)
  qed
qed

lemma normalizeSegs_dotdots:
  "list_all cleanSeg res \<Longrightarrow> k \<le> length res \<Longrightarrow>
   normalizeSegs False res (replicate k ''..'' @ ys) = normalizeSegs False (drop k res) ys"
proof (induction k arbitrary: res)
  case 0 then show ?case by simp
next
  case (Suc k)
  then obtain r rs where res: "res = r # rs" by (cases res) auto
  with Suc show ?case by (auto simp: cleanSeg_def)
qed

lemma normalizeSegs_shape:
  "\<exists>k T. normalizeSegs a res ts = rev (drop k res) @ T \<and> set T \<subseteq> set ts"
proof (induction ts arbitrary: res)
  case Nil
  show ?case by (rule exI[of _ 0]) simp
next
  case (Cons s ss)
  have skip: "\<exists>k T. normalizeSegs a res ss = rev (drop k res) @ T \<and> set T \<subseteq> set (s # ss)"
    using Cons[of res] by auto
  have pop: "\<exists>k T. normalizeSegs a (tl res) ss = rev (drop k res) @ T \<and> set T \<subseteq> set (s # ss)"
  proof -
    obtain k T where kt: "normalizeSegs a (tl res) ss = rev (drop k (tl res)) @ T" "set T \<subseteq> set ss"
      using Cons[of "tl res"] by auto
    have "drop k (tl res) = drop (Suc k) res" by (simp add: drop_Suc)
    with kt show ?thesis by (intro exI[of _ "Suc k"] exI[of _ T]) auto
  qed
  have push: "\<exists>k T. normalizeSegs a (x # res) ss = rev (drop k res) @ T \<and> set T \<subseteq> set (s # ss)"
    if "x \<in> set (s # ss)" for x
  proof -
    obtain k T where kt: "normalizeSegs a (x # res) ss = rev (drop k (x # res)) @ T" "set T \<subseteq> set ss"
      using Cons[of "x # res"] by auto
    show ?thesis
    proof (cases k)
      case 0
      with kt that show ?thesis by (intro exI[of _ 0] exI[of _ "x # T"]) auto
    next
      case (Suc k')
      with kt show ?thesis by (intro exI[of _ k'] exI[of _ T]) auto
    qed
  qed
  show ?case
  proof (cases "s = [] \<or> s = ''.''")
    case True
    then show ?thesis using skip by auto
  next
    case False
    show ?thesis
    proof (cases "s = ''..''")
      case True
      then show ?thesis using skip pop push[of s] by (cases "res \<noteq> [] \<and> hd res \<noteq> ''..''"; cases a) simp_all
    next
      case nd: False
      with False show ?thesis using push[of s] by simp
    qed
  qed
qed

lemma clean_plain: "list_all cleanSeg xs \<Longrightarrow> list_all plainSeg xs"
  by (induction xs) (auto simp: cleanSeg_def plainSeg_def)

lemma joinSegs_Nil_iff_plain: "list_all plainSeg xs \<Longrightarrow> joinSegs xs = [] \<longleftrightarrow> xs = []"
  by (induction xs rule: joinSegs.induct) (auto simp: plainSeg_def)

lemma last_joinSegs_plain:
  "list_all plainSeg xs \<Longrightarrow> xs \<noteq> [] \<Longrightarrow> last (joinSegs xs) \<noteq> CHR ''/''"
proof (induction xs rule: joinSegs.induct)
  case 1 then show ?case by simp
next
  case (2 s)
  then have "s \<noteq> []" "CHR ''/'' \<notin> set s" by (auto simp: plainSeg_def)
  then show ?case by (metis joinSegs.simps(2) last_in_set)
next
  case (3 s t ss)
  then have "joinSegs (t # ss) \<noteq> []" using joinSegs_Nil_iff_plain[of "t # ss"] by simp
  with 3 show ?case by simp
qed

lemma splitOn_joinSegs_plain:
  "list_all plainSeg xs \<Longrightarrow> xs \<noteq> [] \<Longrightarrow> splitOn CHR ''/'' (joinSegs xs) = xs"
  by (rule splitOn_joinSegs) (auto simp: list_all_iff plainSeg_def)

lemma joinSegs_Nil_iff: "list_all cleanSeg xs \<Longrightarrow> joinSegs xs = [] \<longleftrightarrow> xs = []"
  by (rule joinSegs_Nil_iff_plain[OF clean_plain])

lemma last_joinSegs:
  "list_all cleanSeg xs \<Longrightarrow> xs \<noteq> [] \<Longrightarrow> last (joinSegs xs) \<noteq> CHR ''/''"
  by (rule last_joinSegs_plain[OF clean_plain])

lemma joinSegs_append:
  "xs \<noteq> [] \<Longrightarrow> ys \<noteq> [] \<Longrightarrow> joinSegs (xs @ ys) = joinSegs xs @ CHR ''/'' # joinSegs ys"
proof (induction xs rule: joinSegs.induct)
  case 1 then show ?case by simp
next
  case (2 s) then show ?case by (cases ys) auto
next
  case (3 s t ss) then show ?case by simp
qed

lemma resolveSegs_absolute:
  "isAbsolute p \<Longrightarrow> resolveSegs cwd p = normalizeSegs False [] (splitOn CHR ''/'' p)"
  by (simp add: resolveSegs_def)

lemma resolveSegs_clean: "list_all cleanSeg (resolveSegs cwd p)"
  unfolding resolveSegs_def
  by (rule normalizeSegs_False_clean) (auto dest: splitOn_no_sep)

lemma root_shape:
  assumes "is_resolved root"
  shows "root = CHR ''/'' # joinSegs (resolveSegs cwd root)"
    and "normalizeSegs False [] (splitOn CHR ''/'' root @ xs)
         = normalizeSegs False (rev (resolveSegs cwd root)) xs"
proof -
  have abs: "isAbsolute root" using assms by (simp add: is_resolved_def)
  have R: "resolveSegs cwd root = normalizeSegs False [] (splitOn CHR ''/'' root)"
    using abs by (rule resolveSegs_absolute)
  have "path_resolve ''/'' root = root" using assms by (simp add: is_resolved_def)
  then show "root = CHR ''/'' # joinSegs (resolveSegs cwd root)"
    using abs by (simp add: path_resolve_def resolveSegs_absolute)
  show "normalizeSegs False [] (splitOn CHR ''/'' root @ xs)
         = normalizeSegs False (rev (resolveSegs cwd root)) xs"
    by (simp add: normalizeSegs_append R)
qed

lemma path_join_root:
  assumes "is_resolved root"
  shows "path_join [root, t] =
     (let N = normalizeSegs False (rev (resolveSegs cwd root)) (splitOn CHR ''/'' t)
      in if N = [] then ''/''
         else CHR ''/'' # joinSegs N @ (if t \<noteq> [] \<and> last t = CHR ''/'' then ''/'' else []))"
proof -
  let ?R = "resolveSegs cwd root"
  let ?N = "normalizeSegs False (rev ?R) (splitOn CHR ''/'' t)"
  have abs: "isAbsolute root" using assms by (simp add: is_resolved_def)
  have root: "root = CHR ''/'' # joinSegs ?R" using root_shape(1)[OF assms] .
  have cleanR: "list_all cleanSeg ?R" by (rule resolveSegs_clean)
  have cleanN: "list_all cleanSeg ?N"
    by (rule normalizeSegs_False_clean) (use cleanR in \<open>auto dest: splitOn_no_sep\<close>)
  have nil: "joinSegs ?N = [] \<longleftrightarrow> ?N = []" using cleanN by (rule joinSegs_Nil_iff)
  show ?thesis
  proof (cases "t = []")
    case True
    have N: "?N = ?R" using True by simp
    have ns: "normalizeString root False = joinSegs ?R"
      using abs by (simp add: normalizeString_def resolveSegs_absolute)
    have lastr: "?R \<noteq> [] \<Longrightarrow> last root \<noteq> CHR ''/''"
    proof -
      assume ne: "?R \<noteq> []"
      then have "joinSegs ?R \<noteq> []" using joinSegs_Nil_iff[OF cleanR] by simp
      then have "last root = last (joinSegs ?R)" using root by (metis last_ConsR)
      then show ?thesis using last_joinSegs[OF cleanR ne] by simp
    qed
    have "path_join [root, t] = path_normalize root"
      using True abs by (simp add: path_join_def isAbsolute_def)
    also have "\<dots> = (if ?R = [] then ''/'' else CHR ''/'' # joinSegs ?R)"
      using abs lastr joinSegs_Nil_iff[OF cleanR]
      by (auto simp: path_normalize_def ns Let_def isAbsolute_def)
    finally show ?thesis using True N by (simp add: Let_def)
  next
    case False
    let ?j = "root @ CHR ''/'' # t"
    have j: "joinSegs (filter (\<lambda>arg. arg \<noteq> []) [root, t]) = ?j"
      using False abs by (simp add: isAbsolute_def)
    have absj: "isAbsolute ?j" using abs by (auto simp: isAbsolute_def)
    have ns: "normalizeString ?j False = joinSegs ?N"
      by (simp add: normalizeString_def splitOn_append root_shape(2)[OF assms, where cwd = cwd])
    have "path_join [root, t] = path_normalize ?j"
      unfolding path_join_def j by (simp add: Let_def)
    also have "\<dots> = (if ?N = [] then ''/''
         else CHR ''/'' # joinSegs ?N @ (if last t = CHR ''/'' then ''/'' else []))"
      using absj False nil by (auto simp: path_normalize_def ns Let_def)
    finally show ?thesis using False by (simp add: Let_def)
  qed
qed

text \<open>
  \<^verbatim>\<open>DOCUMENT_ROOT\<close> is \<^verbatim>\<open>path.resolve(__dirname)\<close>, and \<^verbatim>\<open>__dirname\<close> is absolute: the root of the
  server is always a resolved path.
\<close>

lemma path_resolve_is_resolved: "isAbsolute d \<Longrightarrow> is_resolved (path_resolve cwd d)"
proof -
  assume abs: "isAbsolute d"
  let ?R = "resolveSegs cwd d"
  have clean: "list_all cleanSeg ?R" by (rule resolveSegs_clean)
  have sp: "splitOn CHR ''/'' (CHR ''/'' # joinSegs ?R) = [] # (if ?R = [] then [[]] else ?R)"
    using clean splitOn_joinSegs[of ?R] by (auto simp: list_all_iff cleanSeg_def)
  have "normalizeSegs False [] (splitOn CHR ''/'' (CHR ''/'' # joinSegs ?R)) = ?R"
    unfolding sp using normalizeSegs_clean[OF clean, of False "[]"] by auto
  then show ?thesis
    by (simp add: is_resolved_def path_resolve_def isAbsolute_def resolveSegs_def)
qed

lemma joinSegs_splitOn: "joinSegs (splitOn CHR ''/'' s) = s"
proof (induction s)
  case Nil show ?case by simp
next
  case (Cons c cs)
  obtain h t where ht: "splitOn CHR ''/'' cs = h # t" by (cases "splitOn CHR ''/'' cs") auto
  show ?case using Cons ht by (cases t) auto
qed

lemma splitOn_target:
  "''..'' \<notin> set (splitOn CHR ''/'' userPath) \<Longrightarrow>
   ''..'' \<notin> set (splitOn CHR ''/'' (if startsWith userPath ''/'' then substring1 userPath else userPath))"
  by (cases userPath) (auto simp: startsWith_def substring1_def)

lemma prefix_joinSegs: "xs \<noteq> [] \<Longrightarrow> prefix (joinSegs xs) (joinSegs (xs @ ys))"
  by (cases "ys = []") (auto simp: joinSegs_append)

lemma getSafePath_ok:
  assumes res: "is_resolved root"
    and N: "normalizeSegs False (rev (resolveSegs cwd root)) (splitOn CHR ''/'' t) = resolveSegs cwd root @ X"
    and t: "t = (if startsWith userPath ''/'' then substring1 userPath else userPath)"
  shows "getSafePath root userPath = path_join [root, t]"
proof -
  let ?R = "resolveSegs cwd root"
  have root: "root = CHR ''/'' # joinSegs ?R" using root_shape(1)[OF res] .
  have pj: "path_join [root, t] =
      (if ?R @ X = [] then ''/''
       else CHR ''/'' # joinSegs (?R @ X) @ (if t \<noteq> [] \<and> last t = CHR ''/'' then ''/'' else []))"
    using path_join_root[OF res, of t cwd] N by (simp add: Let_def)
  have "prefix (joinSegs ?R) (joinSegs (?R @ X) @ z)" for z
  proof (cases "?R = []")
    case True then show ?thesis by simp
  next
    case False
    then show ?thesis using prefix_joinSegs[OF False, of X] by (meson prefix_prefix)
  qed
  then have "prefix root (CHR ''/'' # joinSegs (?R @ X) @ z)" for z
    using root by (metis Cons_prefix_Cons)
  moreover have "?R @ X = [] \<Longrightarrow> root = ''/''" using root by simp
  ultimately have "startsWith (path_join [root, t]) root"
    unfolding pj startsWith_def by auto
  then show ?thesis by (simp add: getSafePath_def Let_def t)
qed

lemma splitOn_replicate: "splitOn d (replicate n d) = replicate (Suc n) []"
  by (induction n) auto

lemma normalizeSegs_empties: "normalizeSegs a res (replicate n []) = rev res"
  by (induction n) auto

lemma getSafePath_slashes:
  assumes "is_resolved root"
  shows "getSafePath root (replicate (Suc n) CHR ''/'') =
     (if n = 0 \<or> root = ''/'' then root else root @ ''/'')"
proof -
  let ?R = "resolveSegs ''/'' root"
  let ?t = "replicate n CHR ''/''"
  have root: "root = CHR ''/'' # joinSegs ?R" using root_shape(1)[OF assms] .
  have clean: "list_all cleanSeg ?R" by (rule resolveSegs_clean)
  have t: "?t = (if startsWith (replicate (Suc n) CHR ''/'') ''/'' then substring1 (replicate (Suc n) CHR ''/'') else replicate (Suc n) CHR ''/'')"
    by (simp add: startsWith_def substring1_def)
  have N: "normalizeSegs False (rev ?R) (splitOn CHR ''/'' ?t) = ?R @ []"
    by (simp only: splitOn_replicate normalizeSegs_empties) simp
  have "getSafePath root (replicate (Suc n) CHR ''/'') = path_join [root, ?t]"
    by (rule getSafePath_ok[OF assms N t])
  also have "\<dots> = (if ?R = [] then ''/'' else CHR ''/'' # joinSegs ?R @ (if n \<noteq> 0 then ''/'' else []))"
    using path_join_root[OF assms, of ?t "''/''"] N by (auto simp: Let_def)
  also have "\<dots> = (if n = 0 \<or> root = ''/'' then root else root @ ''/'')"
    using root joinSegs_Nil_iff[OF clean] by auto
  finally show ?thesis .
qed

lemma getSafePath_Nil: "is_resolved root \<Longrightarrow> getSafePath root [] = root"
proof -
  assume r: "is_resolved root"
  have N: "normalizeSegs False (rev (resolveSegs ''/'' root)) (splitOn CHR ''/'' []) = resolveSegs ''/'' root @ []"
    by simp
  have "getSafePath root [] = path_join [root, []]"
    by (rule getSafePath_ok[OF r N]) (simp add: startsWith_def)
  also have "\<dots> = root"
    using path_join_root[OF r, of "[]" "''/''"] root_shape(1)[OF r, of "''/''"] 
      joinSegs_Nil_iff[OF resolveSegs_clean, of "''/''" root]
    by (auto simp: Let_def)
  finally show ?thesis .
qed

lemma set_splitOn: "seg \<in> set (splitOn d s) \<Longrightarrow> set seg \<subseteq> set s"
proof (induction s arbitrary: seg)
  case Nil then show ?case by simp
next
  case (Cons c cs)
  obtain h t where ht: "splitOn d cs = h # t" by (cases "splitOn d cs") auto
  have h: "set h \<subseteq> set cs" using Cons.IH[of h] ht by simp
  have t: "x \<in> set t \<Longrightarrow> set x \<subseteq> set cs" for x using Cons.IH[of x] ht by simp
  show ?case using Cons.prems ht h t by (auto split: if_splits)
qed

lemma commonPrefixLength_take: "commonPrefixLength xs (take j xs @ T) \<ge> min j (length xs)"
proof (induction xs arbitrary: j)
  case Nil show ?case by simp
next
  case (Cons x xs)
  show ?case using Cons[of "j - 1"] by (cases j) auto
qed

lemma commonPrefixLength_le: "commonPrefixLength xs ys \<le> length xs"
  by (induction xs ys rule: commonPrefixLength.induct) auto

lemma commonPrefixLength_take_eq:
  "take (commonPrefixLength xs ys) xs = take (commonPrefixLength xs ys) ys"
  by (induction xs ys rule: commonPrefixLength.induct) auto

lemma resolveSegs_of_joined:
  assumes "list_all cleanSeg N" and that: "z = [] \<or> z = ''/''"
  shows "resolveSegs cwd (CHR ''/'' # joinSegs N @ z) = N"
proof -
  have abs: "isAbsolute (CHR ''/'' # joinSegs N @ z)" by (simp add: isAbsolute_def)
  have plain: "list_all plainSeg N" using assms(1) by (rule clean_plain)
  have sp: "normalizeSegs False [] (splitOn CHR ''/'' (joinSegs N @ z)) = N"
  proof (cases "N = []")
    case True
    then show ?thesis using that by auto
  next
    case False
    have s1: "splitOn CHR ''/'' (joinSegs N) = N" using splitOn_joinSegs_plain[OF plain False] .
    show ?thesis
    proof (cases "z = []")
      case True
      then show ?thesis using s1 normalizeSegs_clean[OF assms(1), of False "[]"] by simp
    next
      case nz: False
      then have z: "z = ''/''" using that by simp
      have "splitOn CHR ''/'' (joinSegs N @ ''/'') = N @ [[]]"
        using splitOn_append[of "CHR ''/''" "joinSegs N" "[]"] s1 by simp
      then show ?thesis
        using z normalizeSegs_append[of False "[]" N "[[]]"] normalizeSegs_clean[OF assms(1), of False "[]"]
        by simp
    qed
  qed
  show ?thesis using abs sp by (simp add: resolveSegs_def)
qed

lemma path_relative_root:
  "path_relative cwd root x =
     (let R = resolveSegs cwd root; X = resolveSegs cwd x
      in if R = X then []
         else joinSegs (replicate (length R - commonPrefixLength R X) ''..'' @
                        drop (commonPrefixLength R X) X))"
  by (auto simp: path_relative_def Let_def)

lemma notin_joinSegs:
  "c \<noteq> CHR ''/'' \<Longrightarrow> \<forall>s \<in> set xs. c \<notin> set s \<Longrightarrow> c \<notin> set (joinSegs xs)"
  by (induction xs rule: joinSegs.induct) auto

lemma getSafePath_shape:
  assumes res: "is_resolved root"
  shows "\<exists>N z k T. list_all cleanSeg N \<and> (z = [] \<or> z = ''/'')
           \<and> getSafePath root p = CHR ''/'' # joinSegs N @ z
           \<and> N = take k (resolveSegs cwd root) @ T \<and> (\<forall>s \<in> set T. set s \<subseteq> set p)"
proof -
  let ?R = "resolveSegs cwd root"
  let ?t = "if startsWith p ''/'' then substring1 p else p"
  let ?N = "normalizeSegs False (rev ?R) (splitOn CHR ''/'' ?t)"
  have cleanR: "list_all cleanSeg ?R" by (rule resolveSegs_clean)
  have root: "root = CHR ''/'' # joinSegs ?R" using root_shape(1)[OF res] .
  show ?thesis
  proof (cases "startsWith (path_join [root, ?t]) root")
    case False
    then have "getSafePath root p = CHR ''/'' # joinSegs ?R @ []"
      using root by (simp add: getSafePath_def Let_def)
    moreover have "?R = take (length ?R) ?R @ []" by simp
    ultimately show ?thesis using cleanR
      by (intro exI[of _ ?R] exI[of _ "[]"] exI[of _ "length ?R"]) auto
  next
    case True
    have cleanN: "list_all cleanSeg ?N"
      by (rule normalizeSegs_False_clean) (use cleanR in \<open>auto dest: splitOn_no_sep\<close>)
    obtain k T where kT: "?N = rev (drop k (rev ?R)) @ T" "set T \<subseteq> set (splitOn CHR ''/'' ?t)"
      using normalizeSegs_shape[of False "rev ?R" "splitOn CHR ''/'' ?t"] by auto
    have "set ?t \<subseteq> set p" by (auto simp: substring1_def dest: in_set_dropD)
    then have T: "\<forall>s \<in> set T. set s \<subseteq> set p"
      using kT(2) set_splitOn[of _ "CHR ''/''" ?t] by blast
    have N: "?N = take (length ?R - k) ?R @ T" using kT(1) by (simp add: drop_rev)
    let ?z = "if ?N \<noteq> [] \<and> ?t \<noteq> [] \<and> last ?t = CHR ''/'' then ''/'' else []"
    have "getSafePath root p = path_join [root, ?t]"
      using True by (simp add: getSafePath_def Let_def)
    also have "\<dots> = CHR ''/'' # joinSegs ?N @ ?z"
      using path_join_root[OF res, of ?t cwd] by (simp add: Let_def)
    finally have "getSafePath root p = CHR ''/'' # joinSegs ?N @ ?z" .
    with cleanN N T show ?thesis
      by (intro exI[of _ ?N] exI[of _ ?z] exI[of _ "length ?R - k"] exI[of _ T]) auto
  qed
qed

lemma getRelativePath_getSafePath_idem:
  assumes res: "is_resolved root" and nb: "CHR 0x5C \<notin> set p"
  shows "getRelativePath cwd root (getSafePath root (getRelativePath cwd root (getSafePath root p)))
         = getRelativePath cwd root (getSafePath root p)"
proof -
  let ?R = "resolveSegs cwd root"
  have cleanR: "list_all cleanSeg ?R" by (rule resolveSegs_clean)
  have root: "root = CHR ''/'' # joinSegs ?R" using root_shape(1)[OF res] .
  obtain N z k T where cleanN: "list_all cleanSeg N" and z: "z = [] \<or> z = ''/''"
    and safe: "getSafePath root p = CHR ''/'' # joinSegs N @ z"
    and N: "N = take k ?R @ T" and T: "\<forall>s \<in> set T. set s \<subseteq> set p"
    using getSafePath_shape[OF res, of p cwd] by blast
  have X: "resolveSegs cwd (getSafePath root p) = N"
    unfolding safe by (rule resolveSegs_of_joined[OF cleanN z])
  let ?n = "commonPrefixLength ?R N"
  let ?Y = "replicate (length ?R - ?n) ''..'' @ drop ?n N"
  let ?r = "if ?R = N then [] else joinSegs ?Y"
  have rel: "path_relative cwd root (getSafePath root p) = ?r"
    by (simp add: path_relative_root X Let_def)
  have n_le: "?n \<le> length ?R" by (rule commonPrefixLength_le)
  \<comment> \<open>the relative path has no backslash\<close>
  have "length (take k ?R) \<le> ?n"
    using commonPrefixLength_take[of k ?R T] N by simp
  then have "drop ?n N = drop (?n - length (take k ?R)) T"
    using N by (metis append_Nil drop_all drop_append)
  then have "set (drop ?n N) \<subseteq> set T" by (metis set_drop_subset)
  then have "\<forall>s \<in> set ?Y. CHR 0x5C \<notin> set s" using T nb by auto
  then have "CHR 0x5C \<notin> set (joinSegs ?Y)" by (intro notin_joinSegs) simp_all
  then have nbr: "replaceBackslashes ?r = ?r"
    by (auto simp: replaceBackslashes_def intro: map_idI)
  have f1: "getRelativePath cwd root (getSafePath root p) = CHR ''/'' # ?r"
    by (simp add: getRelativePath_def rel nbr)
  show ?thesis
  proof (cases "?R = N")
    case True
    have g: "getSafePath root ''/'' = root" using getSafePath_slashes[OF res, of 0] by simp
    have f: "getRelativePath cwd root (getSafePath root p) = ''/''" using True f1 by simp
    have "getRelativePath cwd root root = ''/''"
      by (simp add: getRelativePath_def path_relative_def replaceBackslashes_def)
    then show ?thesis unfolding f g .
  next
    case False
    have plainY: "list_all plainSeg ?Y"
      using clean_plain[OF cleanN] by (auto simp: list_all_iff plainSeg_def dest: in_set_dropD)
    have Yne: "?Y \<noteq> []"
    proof
      assume "?Y = []"
      then have a: "length ?R = ?n" "length N \<le> ?n" using n_le by auto
      have "take ?n ?R = take ?n N" by (rule commonPrefixLength_take_eq)
      then show False using a False by simp
    qed
    have rne: "joinSegs ?Y \<noteq> []" using joinSegs_Nil_iff_plain[OF plainY] Yne by simp
    have lastr: "last (joinSegs ?Y) \<noteq> CHR ''/''" by (rule last_joinSegs_plain[OF plainY Yne])
    have "normalizeSegs False (rev ?R) (splitOn CHR ''/'' (joinSegs ?Y))
          = normalizeSegs False (rev ?R) ?Y"
      by (simp only: splitOn_joinSegs_plain[OF plainY Yne])
    also have "\<dots> = normalizeSegs False (drop (length ?R - ?n) (rev ?R)) (drop ?n N)"
      by (rule normalizeSegs_dotdots) (use cleanR in auto)
    also have "\<dots> = rev (drop (length ?R - ?n) (rev ?R)) @ drop ?n N"
      by (rule normalizeSegs_clean) (use cleanN in \<open>auto simp: list_all_iff dest: in_set_dropD\<close>)
    also have "\<dots> = take ?n ?R @ drop ?n N" using n_le by (simp add: drop_rev)
    also have "\<dots> = N" using commonPrefixLength_take_eq[of ?R N] by simp
    finally have N': "normalizeSegs False (rev ?R) (splitOn CHR ''/'' (joinSegs ?Y)) = N" .
    let ?full = "CHR ''/'' # joinSegs N"
    have pj: "path_join [root, joinSegs ?Y] = ?full"
      using path_join_root[OF res, of "joinSegs ?Y" cwd] N' lastr by (auto simp: Let_def)
    have "prefix root (?full @ z)"
      using getSafePath_startsWith[of root p] safe by (simp add: startsWith_def)
    have pre: "prefix root ?full"
    proof (cases "z = [] \<or> ?R = []")
      case True
      then show ?thesis using \<open>prefix root (?full @ z)\<close> root by auto
    next
      case nz: False
      then have zz: "z = ''/''" using z by simp
      have "last root \<noteq> CHR ''/''"
        using last_joinSegs[OF cleanR] nz root joinSegs_Nil_iff[OF cleanR] by (metis last_ConsR)
      then have "root \<noteq> ?full @ ''/''" by (metis last_snoc)
      then show ?thesis using \<open>prefix root (?full @ z)\<close> zz
        by (metis prefix_snoc append_Cons)
    qed
    have g2: "getSafePath root (CHR ''/'' # joinSegs ?Y) = ?full"
      using pre by (simp add: getSafePath_def Let_def startsWith_def substring1_def pj)
    have X2: "resolveSegs cwd ?full = N"
      using resolveSegs_of_joined[OF cleanN, of "[]" cwd] by simp
    have rel2: "path_relative cwd root ?full = joinSegs ?Y"
      using False by (simp add: path_relative_root X2 Let_def)
    have f: "getRelativePath cwd root (getSafePath root p) = CHR ''/'' # joinSegs ?Y"
      using False f1 by simp
    have "getRelativePath cwd root ?full = CHR ''/'' # joinSegs ?Y"
      using False nbr by (simp add: getRelativePath_def rel2)
    then show ?thesis unfolding f g2 .
  qed
qed

section \<open>The path resolver: claims\<close>

lemma getSafePath_clean_target:
  assumes res: "is_resolved root"
    and t: "t = (if startsWith userPath ''/'' then substring1 userPath else userPath)"
    and clean: "list_all cleanSeg (splitOn CHR ''/'' t)"
  shows "getSafePath root userPath = (if root = ''/'' then CHR ''/'' # t else root @ CHR ''/'' # t)"
proof -
  let ?R = "resolveSegs ''/'' root"
  let ?X = "splitOn CHR ''/'' t"
  have root: "root = CHR ''/'' # joinSegs ?R" using root_shape(1)[OF res] .
  have cleanR: "list_all cleanSeg ?R" by (rule resolveSegs_clean)
  have N: "normalizeSegs False (rev ?R) ?X = ?R @ ?X"
    using normalizeSegs_clean[OF clean, of False "rev ?R"] by simp
  have tj: "joinSegs ?X = t" by (rule joinSegs_splitOn)
  have Xne: "?X \<noteq> []" by simp
  have lastt: "last t \<noteq> CHR ''/''" using last_joinSegs[OF clean Xne] tj by simp
  have "getSafePath root userPath = path_join [root, t]"
    by (rule getSafePath_ok[OF res N t])
  also have "\<dots> = CHR ''/'' # joinSegs (?R @ ?X)"
    using path_join_root[OF res, of t "''/''"] N lastt by (simp add: Let_def)
  also have "\<dots> = (if root = ''/'' then CHR ''/'' # t else root @ CHR ''/'' # t)"
  proof (cases "?R = []")
    case True
    then show ?thesis using root tj by simp
  next
    case False
    then have "joinSegs ?R \<noteq> []" using joinSegs_Nil_iff[OF cleanR] by simp
    then have "root \<noteq> ''/''" using root by auto
    then show ?thesis using joinSegs_append[OF False Xne] root tj by (metis append_Cons)
  qed
  finally show ?thesis .
qed

text \<open>
  Claim C1 (defect). The claim is that a \<open>userPath\<close> whose join leaves the root is answered
  with the root itself, so that no operation gets a path outside the root. The test in
  \<open>getSafePath\<close> compares strings, not directories: with root \<^verbatim>\<open>/srv/data\<close> the input
  \<^verbatim>\<open>../data2/secret\<close> is joined to \<^verbatim>\<open>/srv/data2/secret\<close>, which begins with the characters of the
  root and is returned as it is, in both versions of the function. The path is outside the
  root (the way back to it starts with \<^verbatim>\<open>..\<close>), and the read handler reads there.
\<close>

theorem getSafePath_escapes_to_sibling:
  "getSafePath ''/srv/data'' ''../data2/secret'' = ''/srv/data2/secret''
   \<and> getSafePath0 ''/srv/data'' ''../data2/secret'' = ''/srv/data2/secret''
   \<and> path_relative ''/'' ''/srv/data'' ''/srv/data2/secret'' = ''../data2/secret''
   \<and> calls (api_file_content ''/'' ''/srv/data'' fs (JStr ''../data2'') (JStr ''secret''))
       = [ReadFile ''/srv/data2/secret'']"
proof -
  have a: "getSafePath ''/srv/data'' ''../data2/secret'' = ''/srv/data2/secret''" by code_simp
  have b: "path_relative ''/'' ''/srv/data'' ''/srv/data2/secret'' = ''../data2/secret''" by code_simp
  have c: "path_join [getSafePath ''/srv/data'' ''../data2'', ''secret''] = ''/srv/data2/secret''"
    by code_simp
  have d: "calls (api_file_content ''/'' ''/srv/data'' fs (JStr ''../data2'') (JStr ''secret''))
       = [ReadFile ''/srv/data2/secret'']"
    by (simp add: api_file_content_def or_default_def Let_def c split: sum.splits)
  show ?thesis using a b d by (simp add: getSafePath0_eq)
qed

text \<open>
  Claim C3. For a resolved root and a \<open>userPath\<close> with no \<^verbatim>\<open>..\<close> segment, \<open>getSafePath\<close>
  returns the join of the root and \<open>userPath\<close>, one leading separator of \<open>userPath\<close> removed
  first: the fall-back to the root is never taken. When the segments of the target are all
  plain names the join is the root, a separator and the target, character for character.
\<close>

theorem getSafePath_without_dotdot:
  assumes "is_resolved root"
    and "''..'' \<notin> set (splitOn CHR ''/'' userPath)"
    and "target = (if startsWith userPath ''/'' then substring1 userPath else userPath)"
  shows "getSafePath root userPath = path_join [root, target]
       \<and> getSafePath0 root userPath = path_join [root, target]
       \<and> (if list_all cleanSeg (splitOn CHR ''/'' target)
          then getSafePath root userPath =
                 (if root = ''/'' then CHR ''/'' # target else root @ CHR ''/'' # target)
          else startsWith (getSafePath root userPath) root)"
proof -
  have "''..'' \<notin> set (splitOn CHR ''/'' target)"
    unfolding assms(3) using assms(2) by (rule splitOn_target)
  then have "normalizeSegs False (rev (resolveSegs ''/'' root)) (splitOn CHR ''/'' target)
     = resolveSegs ''/'' root @ filter (\<lambda>s. s \<noteq> [] \<and> s \<noteq> ''.'') (splitOn CHR ''/'' target)"
    by (simp add: normalizeSegs_no_dotdot)
  from getSafePath_ok[OF assms(1) this assms(3)]
  have a: "getSafePath root userPath = path_join [root, target]" .
  show ?thesis
    using a getSafePath_clean_target[OF assms(1) assms(3)] getSafePath_startsWith[of root userPath]
    by (simp add: getSafePath0_eq)
qed

theorem getSafePath_without_dotdot_witness:
  "is_resolved ''/srv/data''
   \<and> ''..'' \<notin> set (splitOn CHR ''/'' ''/notes/a.txt'')
   \<and> getSafePath ''/srv/data'' ''/notes/a.txt'' = path_join [''/srv/data'', ''notes/a.txt'']
   \<and> path_join [''/srv/data'', ''notes/a.txt''] = ''/srv/data/notes/a.txt''"
proof -
  have h1: "is_resolved ''/srv/data''" by code_simp
  have h2: "''..'' \<notin> set (splitOn CHR ''/'' ''/notes/a.txt'')" by code_simp
  have h3: "''notes/a.txt'' =
      (if startsWith ''/notes/a.txt'' ''/'' then substring1 ''/notes/a.txt'' else ''/notes/a.txt'')"
    by code_simp
  have c: "getSafePath ''/srv/data'' ''/notes/a.txt'' = path_join [''/srv/data'', ''notes/a.txt'']"
    using getSafePath_without_dotdot[OF h1 h2 h3] by (rule conjunct1)
  have v: "path_join [''/srv/data'', ''notes/a.txt''] = ''/srv/data/notes/a.txt''" by code_simp
  show ?thesis using h1 h2 c v by blast
qed

text \<open>
  Claim C9 (as stated, refuted). Two separators are not resolved to the root itself but to
  the root with a trailing separator.
\<close>

theorem getSafePath_separators_counterexample:
  "is_resolved ''/srv/data'' \<and> getSafePath ''/srv/data'' ''//'' = ''/srv/data/''
   \<and> getSafePath ''/srv/data'' ''//'' \<noteq> ''/srv/data''"
  by code_simp

text \<open>
  Claim C9 (amended). For a resolved root, the empty \<open>userPath\<close> and the single separator
  resolve to exactly the root; two or more separators resolve to the root followed by one
  separator (the same directory), and to the root itself when the root is \<^verbatim>\<open>/\<close>.
\<close>

theorem getSafePath_empty_or_separators:
  assumes "is_resolved root"
  shows "getSafePath root [] = root
       \<and> getSafePath root ''/'' = root
       \<and> getSafePath root (replicate (n + 2) CHR ''/'') = (if root = ''/'' then ''/'' else root @ ''/'')"
  using getSafePath_Nil[OF assms] getSafePath_slashes[OF assms, of 0]
    getSafePath_slashes[OF assms, of "Suc n"]
  by auto

theorem getSafePath_empty_or_separators_witness:
  "is_resolved ''/srv/data''
   \<and> getSafePath ''/srv/data'' [] = ''/srv/data''
   \<and> getSafePath ''/srv/data'' ''/'' = ''/srv/data''
   \<and> getSafePath ''/srv/data'' ''///'' = ''/srv/data/''"
proof -
  have h: "is_resolved ''/srv/data''" by code_simp
  have r: "replicate (1 + 2) CHR ''/'' = ''///''" by code_simp
  show ?thesis using getSafePath_empty_or_separators[OF h, of 1] h r by simp
qed

text \<open>
  Claim C8 (as stated, refuted). Resolving and relativizing is not idempotent on every
  input. A backslash is an ordinary character of a POSIX name, so two dots, a backslash and
  \<^verbatim>\<open>x\<close> are one segment under the root; relativizing rewrites it to \<^verbatim>\<open>/../x\<close>, which the
  next round resolves to the root.
\<close>

theorem relativeDir_not_idempotent:
  "relativeDir ''/'' ''/srv/data''
     (relativeDir ''/'' ''/srv/data'' [CHR ''.'', CHR ''.'', CHR 0x5C, CHR ''x''])
   \<noteq> relativeDir ''/'' ''/srv/data'' [CHR ''.'', CHR ''.'', CHR 0x5C, CHR ''x'']"
  by code_simp

text \<open>
  Claim C8 (amended). For every \<open>userPath\<close> the relativized resolved path starts with \<^verbatim>\<open>/\<close> and
  contains no backslash; for a resolved root and a \<open>userPath\<close> without a backslash, resolving
  and relativizing the result again returns the same string.
\<close>

theorem relativeDir_properties:
  "startsWith (relativeDir cwd root p) ''/''
   \<and> CHR 0x5C \<notin> set (relativeDir cwd root p)
   \<and> (is_resolved root \<and> CHR 0x5C \<notin> set p \<longrightarrow>
        relativeDir cwd root (relativeDir cwd root p) = relativeDir cwd root p)"
proof -
  have a: "startsWith (relativeDir cwd root p) ''/''"
    by (simp add: relativeDir_def getRelativePath_def startsWith_def)
  have b: "CHR 0x5C \<notin> set (relativeDir cwd root p)"
    by (auto simp: relativeDir_def getRelativePath_def replaceBackslashes_def)
  show ?thesis using a b getRelativePath_getSafePath_idem[of root p cwd]
    by (simp add: relativeDir_def)
qed

theorem relativeDir_properties_witness:
  "is_resolved ''/srv/data'' \<and> CHR 0x5C \<notin> set ''docs/img/''
   \<and> relativeDir ''/'' ''/srv/data'' ''docs/img/'' = ''/docs/img''
   \<and> relativeDir ''/'' ''/srv/data'' (relativeDir ''/'' ''/srv/data'' ''docs/img/'')
       = relativeDir ''/'' ''/srv/data'' ''docs/img/''"
proof -
  have h1: "is_resolved ''/srv/data''" by code_simp
  have h2: "CHR 0x5C \<notin> set ''docs/img/''" by code_simp
  have v: "relativeDir ''/'' ''/srv/data'' ''docs/img/'' = ''/docs/img''" by code_simp
  show ?thesis
    using relativeDir_properties[of "''/''" "''/srv/data''" "''docs/img/''"] h1 h2 v by simp
qed

text \<open>
  Claim C10. For every string \<open>userPath\<close> the result of \<open>getSafePath\<close> begins with
  \<open>DOCUMENT_ROOT\<close>, in both versions of the function. The containment is one of strings,
  not of directories: with root \<^verbatim>\<open>/srv/data\<close> the input \<^verbatim>\<open>../data2\<close> is answered with the
  sibling directory \<^verbatim>\<open>/srv/data2\<close>, whose name extends the root's name.
\<close>

theorem getSafePath_prefix_invariant:
  "startsWith (getSafePath root userPath) root
   \<and> startsWith (getSafePath0 root userPath) root
   \<and> getSafePath ''/srv/data'' ''../data2'' = ''/srv/data2''"
proof -
  have "getSafePath ''/srv/data'' ''../data2'' = ''/srv/data2''"
    by code_simp
  then show ?thesis by (simp add: getSafePath0_eq getSafePath_startsWith)
qed

section \<open>Lemmas about the file store\<close>

lemma walk_append:
  "walk fs here n (xs @ ys) =
     (case walk fs here n xs of Inl e \<Rightarrow> Inl e | Inr n' \<Rightarrow> walk fs (here @ xs) n' ys)"
  by (induction xs arbitrary: here n) (auto split: option.splits sum.splits)

lemma walk_update:
  "length here + length xs < length k \<Longrightarrow> walk (fs(k := v)) here n xs = walk fs here n xs"
proof (induction xs arbitrary: here n)
  case Nil
  then show ?case by simp
next
  case (Cons name names)
  have "here @ [name] \<noteq> k" using Cons.prems by auto
  then have ne: "(fs(k := v)) (here @ [name]) = fs (here @ [name])" by simp
  have "walk (fs(k := v)) (here @ [name]) n' names = walk fs (here @ [name]) n' names" for n'
    using Cons.prems by (intro Cons.IH) simp
  then show ?case using ne by (simp del: fun_upd_apply split: option.splits)
qed


lemma namei_snoc:
  "k \<noteq> [] \<Longrightarrow>
   namei fs k =
     (case namei fs (butlast k) of
        Inl e \<Rightarrow> Inl e
      | Inr n \<Rightarrow>
          if n \<noteq> Dir then Inl ENOTDIR
          else if 255 < length (last k) then Inl ENAMETOOLONG
          else (case fs k of None \<Rightarrow> Inl ENOENT | Some n' \<Rightarrow> Inr n'))"
proof -
  assume "k \<noteq> []"
  then have k: "k = butlast k @ [last k]" by simp
  have "namei fs (butlast k @ [last k]) =
     (case namei fs (butlast k) of
        Inl e \<Rightarrow> Inl e
      | Inr n \<Rightarrow>
          if n \<noteq> Dir then Inl ENOTDIR
          else if 255 < length (last k) then Inl ENAMETOOLONG
          else (case fs (butlast k @ [last k]) of None \<Rightarrow> Inl ENOENT | Some n' \<Rightarrow> Inr n'))"
    unfolding namei_def walk_append by (auto split: sum.splits option.splits)
  then show ?thesis using k by metis
qed

lemma namei_update_butlast:
  "k \<noteq> [] \<Longrightarrow> namei (fs(k := v)) (butlast k) = namei fs (butlast k)"
  unfolding namei_def by (rule walk_update) (simp add: length_greater_0_conv[THEN iffD2])

lemma open_for_write_cases:
  assumes "open_for_write cwd fs p = Inr fs'"
  shows "invalid_path p = None" "resolveSegs cwd p \<noteq> []"
    "namei fs (butlast (resolveSegs cwd p)) = Inr Dir" "\<not> trailingSlash p"
    "\<not> 255 < length (last (resolveSegs cwd p))"
    "fs (resolveSegs cwd p) \<noteq> Some Dir"
    "fs' = (if fs (resolveSegs cwd p) = Some Device then fs
            else fs((resolveSegs cwd p) \<mapsto> File []))"
  using assms
  by (auto simp: open_for_write_def Let_def
      split: option.splits sum.splits node.splits if_splits)

lemma fs_writeFile_Written:
  assumes "fs_writeFile cwd fs p (JStr t) = Written fs'"
  shows "invalid_path p = None" "resolveSegs cwd p \<noteq> []"
    "namei fs (butlast (resolveSegs cwd p)) = Inr Dir" "\<not> trailingSlash p"
    "\<not> 255 < length (last (resolveSegs cwd p))"
    "fs (resolveSegs cwd p) \<noteq> Some Dir"
    "fs' = (if fs (resolveSegs cwd p) = Some Device then fs
            else fs((resolveSegs cwd p) \<mapsto> File t))"
proof -
  from assms obtain fs1 where o: "open_for_write cwd fs p = Inr fs1"
    and w: "fs' = (if fs1 (resolveSegs cwd p) = Some Device then fs1
                   else fs1((resolveSegs cwd p) \<mapsto> File t))"
    by (auto simp: fs_writeFile_def split: sum.splits)
  note c = open_for_write_cases[OF o]
  show "invalid_path p = None" "resolveSegs cwd p \<noteq> []"
    "namei fs (butlast (resolveSegs cwd p)) = Inr Dir" "\<not> trailingSlash p"
    "\<not> 255 < length (last (resolveSegs cwd p))"
    "fs (resolveSegs cwd p) \<noteq> Some Dir"
    by (rule c)+
  show "fs' = (if fs (resolveSegs cwd p) = Some Device then fs
            else fs((resolveSegs cwd p) \<mapsto> File t))"
    unfolding w c(7) by auto
qed

lemma fs_writeFile_regular:
  assumes "invalid_path p = None" "resolveSegs cwd p \<noteq> []"
    "namei fs (butlast (resolveSegs cwd p)) = Inr Dir" "\<not> trailingSlash p"
    "length (last (resolveSegs cwd p)) \<le> 255"
    "fs (resolveSegs cwd p) = None \<or> fs (resolveSegs cwd p) = Some (File c)"
  shows "fs_writeFile cwd fs p (JStr t) = Written (fs((resolveSegs cwd p) \<mapsto> File t))"
  using assms by (auto simp: fs_writeFile_def open_for_write_def Let_def)

lemma stat_after_write:
  assumes "fs_writeFile cwd fs p (JStr t) = Written fs'"
  shows "fs_stat cwd fs' p =
     Inr (if fs (resolveSegs cwd p) = Some Device then Device else File t)"
proof -
  note c = fs_writeFile_Written[OF assms]
  let ?k = "resolveSegs cwd p"
  have parent: "namei fs' (butlast ?k) = Inr Dir"
  proof (cases "fs ?k = Some Device")
    case True
    then show ?thesis using c(3,7) by simp
  next
    case False
    then have "fs' = fs(?k := Some (File t))" using c(7) by simp
    then show ?thesis using namei_update_butlast[OF c(2)] c(3) by simp
  qed
  have here: "fs' ?k = Some (if fs ?k = Some Device then Device else File t)"
    using c(7) by simp
  have "namei fs' ?k = Inr (if fs ?k = Some Device then Device else File t)"
    unfolding namei_snoc[OF c(2)] parent here using c(5) by simp
  then show ?thesis using c(1,4) by (simp add: fs_stat_def)
qed

lemma writeFile_readFile:
  assumes "fs_writeFile cwd fs p (JStr t) = Written fs'"
  shows "fs_readFile cwd fs' p = Inr (if fs (resolveSegs cwd p) = Some Device then [] else t)"
  unfolding fs_readFile_def stat_after_write[OF assms] by simp

lemma stat_device_iff:
  assumes "invalid_path p = None" "resolveSegs cwd p \<noteq> []"
    "namei fs (butlast (resolveSegs cwd p)) = Inr Dir" "\<not> trailingSlash p"
    "\<not> 255 < length (last (resolveSegs cwd p))"
  shows "fs_stat cwd fs p = Inr Device \<longleftrightarrow> fs (resolveSegs cwd p) = Some Device"
  using assms by (auto simp: fs_stat_def namei_snoc split: option.splits node.splits)

lemma example_paths:
  "path_join [''/tmp/'', ''notes.txt''] = ''/tmp/notes.txt''"
  "path_join [getSafePath ''/srv/data'' ''./'', ''notes.txt''] = ''/srv/data/notes.txt''"
  "path_join [getSafePath0 ''/srv/data'' ''./'', ''notes.txt''] = ''/srv/data/notes.txt''"
  "path_join [getSafePath ''/tmp'' ''./'', ''notes.txt''] = ''/tmp/notes.txt''"
  "path_join [getSafePath0 ''/srv/data'' ''./'', ''../../dev/null''] = ''/dev/null''"
  "path_join [''/tmp/'', ''work''] = ''/tmp/work''"
  "path_join [''/tmp/'', ''missing.txt''] = ''/tmp/missing.txt''"
  "path_join [''/tmp/'', ''notes.txt/x''] = ''/tmp/notes.txt/x''"
  "path_join [''/tmp/'', ''..''] = ''/''"
  "path_join [getSafePath0 ''/srv/data'' ''./'', ''old.txt''] = ''/srv/data/old.txt''"
  by code_simp+

lemma example_segments:
  "resolveSegs ''/'' ''/tmp/notes.txt'' = [''tmp'', ''notes.txt'']"
  "resolveSegs ''/'' ''/srv/data/notes.txt'' = [''srv'', ''data'', ''notes.txt'']"
  "resolveSegs ''/'' ''/dev/null'' = [''dev'', ''null'']"
  "resolveSegs ''/'' ''/tmp/work'' = [''tmp'', ''work'']"
  "resolveSegs ''/'' ''/tmp/missing.txt'' = [''tmp'', ''missing.txt'']"
  "resolveSegs ''/'' ''/tmp/notes.txt/x'' = [''tmp'', ''notes.txt'', ''x'']"
  "resolveSegs ''/'' ''/'' = []"
  "resolveSegs ''/'' ''/srv/data/old.txt'' = [''srv'', ''data'', ''old.txt'']"
  by code_simp+


lemma example_write:
  "fs_writeFile ''/'' fs_example ''/tmp/notes.txt'' (JStr t) =
     Written (fs_example([''tmp'', ''notes.txt''] \<mapsto> File t))"
  "fs_writeFile ''/'' fs_example ''/srv/data/notes.txt'' (JStr t) =
     Written (fs_example([''srv'', ''data'', ''notes.txt''] \<mapsto> File t))"
  "fs_writeFile ''/'' fs_example ''/dev/null'' (JStr t) = Written fs_example"
  by (simp_all add: fs_writeFile_def open_for_write_def invalid_path_def namei_def
      example_segments fs_example_def trailingSlash_def Let_def)

section \<open>The file operations: claims\<close>



lemma read_after_write:
  assumes "fs_writeFile cwd fs p (JStr t) = Written fs'"
  shows "fs_readFile cwd fs' p = Inr (if fs_stat cwd fs p = Inr Device then [] else t)"
proof -
  note c = fs_writeFile_Written[OF assms]
  show ?thesis
    unfolding writeFile_readFile[OF assms] stat_device_iff[OF c(1-5)] ..
qed













text \<open>
  Claim C6 (defect). The claim is that after a failed transfer an error response is written
  only if the headers have not been sent. The callback of \<^verbatim>\<open>src/api/server.js\<close> does so; the
  callback of the first version writes its 500 response whenever the transfer failed, also
  when the headers had been sent.
\<close>

theorem download_error_after_headers:
  "api_download0 ''/srv/data'' JUndefined (JStr ''a.txt'') (Stream_error True)
     = Downloaded ''/srv/data/a.txt'' ''a.txt'' (Stream_error True) (Send 500 ''Gagal mengunduh file.'')
   \<and> download_callback0 True headersSent = Send 500 ''Gagal mengunduh file.''
   \<and> download_callback True headersSent =
       (if headersSent then No_write else Send 500 ''Gagal mengunduh file. Cek log Vercel.'')
   \<and> api_download (JStr ''a.txt'') (Stream_error True)
     = Downloaded ''/tmp/a.txt'' ''a.txt'' (Stream_error True) No_write"
proof -
  have p: "path_join [getSafePath0 ''/srv/data'' ''./'', ''a.txt''] = ''/srv/data/a.txt''"
    "path_join [''/tmp/'', ''a.txt''] = ''/tmp/a.txt''"
    by code_simp+
  show ?thesis
    by (simp add: api_download0_def api_download_def download_callback0_def download_callback_def
        or_default_def Let_def p)
qed

text \<open>
  Claim C7. In both versions the save handler answers with status 400 exactly when the
  file name is missing (absent, null, empty or otherwise falsy) or the content is absent;
  it then makes no call to the store and leaves it unchanged. With a non-empty name (in
  the first version also a directory that is a string, or a value that is replaced by the
  default) and the empty string as content the handler's answer is that of the one
  \<^verbatim>\<open>writeFile\<close> call on the resolved path with the empty content: either the write succeeds,
  the answer is status 200, the store is the one the write leaves, and the path then reads
  as the empty text; or the write fails and the answer is status 500 with its error, the
  store unchanged. The write of the empty string succeeds and leaves an empty file at the
  path where the path is valid (no NUL, within the length limits, no trailing separator,
  not the root), its directory exists, and the path is free or a regular file.
\<close>

theorem save_file_client_error:
  "(status (outcome (api_save_file cwd fs file_name content)) = Some 400
      \<longleftrightarrow> \<not> truthy file_name \<or> content = JUndefined)
   \<and> (status (outcome (api_save_file0 cwd root fs file_name content directory)) = Some 400
      \<longleftrightarrow> \<not> truthy file_name \<or> content = JUndefined)
   \<and> (\<not> truthy file_name \<or> content = JUndefined \<longrightarrow>
        calls (api_save_file cwd fs file_name content) = []
        \<and> store (api_save_file cwd fs file_name content) = fs
        \<and> calls (api_save_file0 cwd root fs file_name content directory) = []
        \<and> store (api_save_file0 cwd root fs file_name content directory) = fs)
   \<and> (f \<noteq> [] \<and> tmpPath = path_join [''/tmp/'', f] \<longrightarrow>
        (\<exists>fs'. fs_writeFile cwd fs tmpPath (JStr []) = Written fs'
           \<and> api_save_file cwd fs (JStr f) (JStr []) =
               \<lparr>outcome = Responded (Json 200
                  (Ok_message ''File berhasil disimpan (sementara di /tmp).'')),
                store = fs', calls = [WriteFile tmpPath (JStr [])]\<rparr>
           \<and> fs_readFile cwd fs' tmpPath = Inr [])
        \<or> (\<exists>e. fs_writeFile cwd fs tmpPath (JStr []) = Write_error e
           \<and> api_save_file cwd fs (JStr f) (JStr []) =
               \<lparr>outcome = Responded (Json 500
                  (Fail_error
                     ''[SERVER ERROR] Gagal menyimpan file (Izin ditolak?). Cek log Vercel.'' e)),
                store = fs, calls = [WriteFile tmpPath (JStr [])]\<rparr>))
   \<and> (f \<noteq> [] \<and> the_string (or_default directory ''./'') = Some d
        \<and> rootPath = path_join [getSafePath0 root d, f] \<longrightarrow>
        (\<exists>fs'. fs_writeFile cwd fs rootPath (JStr []) = Written fs'
           \<and> api_save_file0 cwd root fs (JStr f) (JStr []) directory =
               \<lparr>outcome = Responded (Json 200 (Ok_message ''File berhasil disimpan.'')),
                store = fs', calls = [WriteFile rootPath (JStr [])]\<rparr>
           \<and> fs_readFile cwd fs' rootPath = Inr [])
        \<or> (\<exists>e. fs_writeFile cwd fs rootPath (JStr []) = Write_error e
           \<and> api_save_file0 cwd root fs (JStr f) (JStr []) directory =
               \<lparr>outcome = Responded (Json 500
                  (Fail_error ''Gagal menyimpan file (Izin ditolak?).'' e)),
                store = fs, calls = [WriteFile rootPath (JStr [])]\<rparr>))
   \<and> (invalid_path target = None \<and> resolveSegs cwd target \<noteq> []
        \<and> namei fs (butlast (resolveSegs cwd target)) = Inr Dir \<and> \<not> trailingSlash target
        \<and> length (last (resolveSegs cwd target)) \<le> 255
        \<and> (fs (resolveSegs cwd target) = None \<or> fs (resolveSegs cwd target) = Some (File old))
        \<longrightarrow> fs_writeFile cwd fs target (JStr []) =
              Written (fs((resolveSegs cwd target) \<mapsto> File [])))"
proof -
  have a: "status (outcome (api_save_file cwd fs file_name content)) = Some 400
      \<longleftrightarrow> \<not> truthy file_name \<or> content = JUndefined"
    by (auto simp: api_save_file_def Let_def split: option.splits write_result.splits)
  have b: "status (outcome (api_save_file0 cwd root fs file_name content directory)) = Some 400
      \<longleftrightarrow> \<not> truthy file_name \<or> content = JUndefined"
    by (auto simp: api_save_file0_def Let_def split: option.splits write_result.splits)
  have c: "\<not> truthy file_name \<or> content = JUndefined \<Longrightarrow>
        calls (api_save_file cwd fs file_name content) = []
        \<and> store (api_save_file cwd fs file_name content) = fs
        \<and> calls (api_save_file0 cwd root fs file_name content directory) = []
        \<and> store (api_save_file0 cwd root fs file_name content directory) = fs"
    by (auto simp: api_save_file_def api_save_file0_def)
  have total: "(\<exists>fs'. fs_writeFile cwd fs p (JStr []) = Written fs')
      \<or> (\<exists>e. fs_writeFile cwd fs p (JStr []) = Write_error e)" for p
    by (simp add: fs_writeFile_def split: sum.splits)
  have rb: "fs_readFile cwd fs' p = Inr []" if "fs_writeFile cwd fs p (JStr []) = Written fs'"
    for p fs'
    using read_after_write[OF that] by simp
  have d: "(\<exists>fs'. fs_writeFile cwd fs tmpPath (JStr []) = Written fs'
           \<and> api_save_file cwd fs (JStr f) (JStr []) =
               \<lparr>outcome = Responded (Json 200
                  (Ok_message ''File berhasil disimpan (sementara di /tmp).'')),
                store = fs', calls = [WriteFile tmpPath (JStr [])]\<rparr>
           \<and> fs_readFile cwd fs' tmpPath = Inr [])
        \<or> (\<exists>e. fs_writeFile cwd fs tmpPath (JStr []) = Write_error e
           \<and> api_save_file cwd fs (JStr f) (JStr []) =
               \<lparr>outcome = Responded (Json 500
                  (Fail_error
                     ''[SERVER ERROR] Gagal menyimpan file (Izin ditolak?). Cek log Vercel.'' e)),
                store = fs, calls = [WriteFile tmpPath (JStr [])]\<rparr>)"
    if "f \<noteq> []" "tmpPath = path_join [''/tmp/'', f]"
    using that total[of tmpPath] rb[of tmpPath]
    by (auto simp: api_save_file_def Let_def)
  have e: "(\<exists>fs'. fs_writeFile cwd fs rootPath (JStr []) = Written fs'
           \<and> api_save_file0 cwd root fs (JStr f) (JStr []) directory =
               \<lparr>outcome = Responded (Json 200 (Ok_message ''File berhasil disimpan.'')),
                store = fs', calls = [WriteFile rootPath (JStr [])]\<rparr>
           \<and> fs_readFile cwd fs' rootPath = Inr [])
        \<or> (\<exists>e. fs_writeFile cwd fs rootPath (JStr []) = Write_error e
           \<and> api_save_file0 cwd root fs (JStr f) (JStr []) directory =
               \<lparr>outcome = Responded (Json 500
                  (Fail_error ''Gagal menyimpan file (Izin ditolak?).'' e)),
                store = fs, calls = [WriteFile rootPath (JStr [])]\<rparr>)"
    if "f \<noteq> []" "the_string (or_default directory ''./'') = Some d"
      "rootPath = path_join [getSafePath0 root d, f]"
    using that total[of rootPath] rb[of rootPath]
    by (auto simp: api_save_file0_def Let_def)
  have g: "fs_writeFile cwd fs target (JStr []) =
              Written (fs((resolveSegs cwd target) \<mapsto> File []))"
    if "invalid_path target = None" "resolveSegs cwd target \<noteq> []"
      "namei fs (butlast (resolveSegs cwd target)) = Inr Dir" "\<not> trailingSlash target"
      "length (last (resolveSegs cwd target)) \<le> 255"
      "fs (resolveSegs cwd target) = None \<or> fs (resolveSegs cwd target) = Some (File old)"
    using that by (rule fs_writeFile_regular)
  show ?thesis
    apply (intro conjI impI)
    subgoal by (rule a)
    subgoal by (rule b)
    subgoal using c by blast
    subgoal using c by blast
    subgoal using c by blast
    subgoal using c by blast
    subgoal using d by blast
    subgoal using e by blast
    subgoal using g by blast
    done
qed

theorem save_file_client_error_witness:
  "\<not> truthy (JStr [])
   \<and> status (outcome (api_save_file ''/'' fs_example (JStr []) (JStr ''x''))) = Some 400
   \<and> calls (api_save_file ''/'' fs_example (JStr []) (JStr ''x'')) = []
   \<and> store (api_save_file ''/'' fs_example (JStr []) (JStr ''x'')) = fs_example
   \<and> status (outcome (api_save_file0 ''/'' ''/srv/data'' fs_example (JStr ''notes.txt'')
         JUndefined JUndefined)) = Some 400
   \<and> fs_example [''tmp'', ''notes.txt''] = Some (File ''n'')
   \<and> api_save_file ''/'' fs_example (JStr ''notes.txt'') (JStr []) =
        \<lparr>outcome = Responded (Json 200
           (Ok_message ''File berhasil disimpan (sementara di /tmp).'')),
         store = fs_example([''tmp'', ''notes.txt''] \<mapsto> File []),
         calls = [WriteFile ''/tmp/notes.txt'' (JStr [])]\<rparr>
   \<and> api_save_file0 ''/'' ''/srv/data'' fs_example (JStr ''notes.txt'') (JStr []) JUndefined =
        \<lparr>outcome = Responded (Json 200 (Ok_message ''File berhasil disimpan.'')),
         store = fs_example([''srv'', ''data'', ''notes.txt''] \<mapsto> File []),
         calls = [WriteFile ''/srv/data/notes.txt'' (JStr [])]\<rparr>
   \<and> api_save_file ''/'' fs_example (JStr ''work'') (JStr []) =
        \<lparr>outcome = Responded (Json 500
           (Fail_error ''[SERVER ERROR] Gagal menyimpan file (Izin ditolak?). Cek log Vercel.''
              EISDIR)),
         store = fs_example, calls = [WriteFile ''/tmp/work'' (JStr [])]\<rparr>"
proof -
  have d: "the_string (or_default JUndefined ''./'') = Some ''./''" by (simp add: or_default_def)
  have ne: "''notes.txt'' \<noteq> []" "''work'' \<noteq> []" by simp_all
  have p1: "''/tmp/notes.txt'' = path_join [''/tmp/'', ''notes.txt'']"
    and p2: "''/srv/data/notes.txt'' = path_join [getSafePath0 ''/srv/data'' ''./'', ''notes.txt'']"
    and p3: "''/tmp/work'' = path_join [''/tmp/'', ''work'']"
    by (simp_all add: example_paths)
  have w3: "fs_writeFile ''/'' fs_example ''/tmp/work'' (JStr []) = Write_error EISDIR"
    by (simp add: fs_writeFile_def open_for_write_def invalid_path_def namei_def
        example_segments fs_example_def trailingSlash_def Let_def)
  have t: "\<not> truthy (JStr [])" by simp
  have g1: "status (outcome (api_save_file ''/'' fs_example (JStr []) (JStr ''x''))) = Some 400"
    and g2: "calls (api_save_file ''/'' fs_example (JStr []) (JStr ''x'')) = []"
    and g3: "store (api_save_file ''/'' fs_example (JStr []) (JStr ''x'')) = fs_example"
    using save_file_client_error[where cwd = "''/''" and fs = fs_example and file_name = "JStr []"
        and content = "JStr ''x''"] t
    by blast+
  have g4: "status (outcome (api_save_file0 ''/'' ''/srv/data'' fs_example (JStr ''notes.txt'')
         JUndefined JUndefined)) = Some 400"
    using save_file_client_error[where cwd = "''/''" and fs = fs_example
        and file_name = "JStr ''notes.txt''" and content = JUndefined and root = "''/srv/data''"
        and directory = JUndefined]
    by blast
  have i1: "api_save_file ''/'' fs_example (JStr ''notes.txt'') (JStr []) =
        \<lparr>outcome = Responded (Json 200
           (Ok_message ''File berhasil disimpan (sementara di /tmp).'')),
         store = fs_example([''tmp'', ''notes.txt''] \<mapsto> File []),
         calls = [WriteFile ''/tmp/notes.txt'' (JStr [])]\<rparr>"
    using save_file_client_error[where cwd = "''/''" and fs = fs_example and f = "''notes.txt''"
        and tmpPath = "''/tmp/notes.txt''"] ne(1) p1 example_write(1)[of "[]"]
    by auto
  have i2: "api_save_file0 ''/'' ''/srv/data'' fs_example (JStr ''notes.txt'') (JStr []) JUndefined =
        \<lparr>outcome = Responded (Json 200 (Ok_message ''File berhasil disimpan.'')),
         store = fs_example([''srv'', ''data'', ''notes.txt''] \<mapsto> File []),
         calls = [WriteFile ''/srv/data/notes.txt'' (JStr [])]\<rparr>"
    using save_file_client_error[where cwd = "''/''" and fs = fs_example and f = "''notes.txt''"
        and rootPath = "''/srv/data/notes.txt''" and root = "''/srv/data''"
        and directory = JUndefined and d = "''./''"] ne(1) p2 d example_write(2)[of "[]"]
    by auto
  have i3: "api_save_file ''/'' fs_example (JStr ''work'') (JStr []) =
        \<lparr>outcome = Responded (Json 500
           (Fail_error ''[SERVER ERROR] Gagal menyimpan file (Izin ditolak?). Cek log Vercel.''
              EISDIR)),
         store = fs_example, calls = [WriteFile ''/tmp/work'' (JStr [])]\<rparr>"
    using save_file_client_error[where cwd = "''/''" and fs = fs_example and f = "''work''"
        and tmpPath = "''/tmp/work''"] ne(2) p3 w3
    by auto
  have old: "fs_example [''tmp'', ''notes.txt''] = Some (File ''n'')"
    by (simp add: fs_example_def)
  show ?thesis using t g1 g2 g3 g4 old i1 i2 i3 by blast
qed

section \<open>The remote-repository variant: claims\<close>





end
